theory Spec2Isabelle
  imports Main "HOL-Library.AList"
begin

section \<open>Python values used by \<^verbatim>\<open>Annotations_from_Tabbles.py\<close>\<close>

text \<open>
  Strings are lists of 8-bit characters, read as the code points below 256.
  A Python \<^verbatim>\<open>dict\<close> keeps its keys in insertion order, and the script iterates over
  \<^verbatim>\<open>.items()\<close>, so a dict is an association list: \<open>map_of d k\<close> is the lookup,
  \<open>AList.update k v d\<close> is \<^verbatim>\<open>d[k] = v\<close> (in place when the key is there, at the end
  otherwise). An exception is a value of \<open>error\<close>, returned as \<open>Inl\<close>.
\<close>

datatype error = AssertionError | AttributeError

type_synonym kv = "string \<times> string"

text \<open>\<^verbatim>\<open>{key1: [value1, value2], key2: ...}\<close>\<close>
type_synonym kvdict = "(string \<times> string list) list"

text \<open>The data of Tabbles: \<^verbatim>\<open>{namespace: {key: [values]}}\<close>, the namespace may be \<^verbatim>\<open>None\<close>.\<close>
type_synonym hierarchy = "(string option \<times> kvdict) list"

text \<open>\<^verbatim>\<open>new_KVpairs_dict\<close>: the namespaces are strings.\<close>
type_synonym nsdict = "(string \<times> kvdict) list"

text \<open>\<^verbatim>\<open>s.startswith(p)\<close>\<close>
definition startswith :: "string \<Rightarrow> string \<Rightarrow> bool" where
  "startswith s p = (take (length p) s = p)"

text \<open>\<^verbatim>\<open>sub in s\<close> for two strings: \<open>sub\<close> occurs in \<open>s\<close> as a contiguous piece.\<close>
fun str_in :: "string \<Rightarrow> string \<Rightarrow> bool" where
  "str_in sub [] = (sub = [])"
| "str_in sub (c # cs) = (startswith (c # cs) sub \<or> str_in sub cs)"

text \<open>
  \<^verbatim>\<open>str.lower()\<close> on code points below 256: the letters A to Z and the capital
  letters of Latin-1 (192 to 222 without the multiplication sign 215) move up by 32.
\<close>
definition lower_char :: "char \<Rightarrow> char" where
  "lower_char c =
     (let n = (of_char c :: nat)
      in if (65 \<le> n \<and> n \<le> 90) \<or> (192 \<le> n \<and> n \<le> 222 \<and> n \<noteq> 215)
         then char_of (n + 32) else c)"

definition lower :: "string \<Rightarrow> string" where
  "lower s = map lower_char s"

text \<open>
  The character class \<^verbatim>\<open>[a-zA-Z\s]\<close> of the regular expression in
  \<^verbatim>\<open>transformToMaprNamespace\<close>; \<^verbatim>\<open>\s\<close> on a \<^verbatim>\<open>str\<close> pattern is the Unicode
  white space, which below 256 is 9 to 13, 28 to 32, 133 and 160.
\<close>
definition letter_or_space :: "char \<Rightarrow> bool" where
  "letter_or_space c =
     (let n = (of_char c :: nat)
      in (97 \<le> n \<and> n \<le> 122) \<or> (65 \<le> n \<and> n \<le> 90) \<or>
         (9 \<le> n \<and> n \<le> 13) \<or> (28 \<le> n \<and> n \<le> 32) \<or> n = 133 \<or> n = 160)"

text \<open>
  \<^verbatim>\<open>re.search(r"[a-zA-Z\s]{3,}", s)\<close>: the start positions are tried from the left,
  at each one the greedy repetition takes every character of the class that follows, and
  the match needs three of them. \<open>None\<close> is Python's \<^verbatim>\<open>None\<close> (no match), \<open>Some m\<close>
  a match object whose \<^verbatim>\<open>.group()\<close> is \<open>m\<close>.
\<close>
fun re_search :: "string \<Rightarrow> string option" where
  "re_search [] = None"
| "re_search (c # cs) =
     (let m = takeWhile letter_or_space (c # cs)
      in if 3 \<le> length m then Some m else re_search cs)"

section \<open>The namespaces of OMERO.mapr\<close>

text \<open>
  \<^verbatim>\<open>getMaprNamespaces()\<close> reads the configuration of omero-web, which the script does
  not change: its result is the parameter \<open>mapr_ns_list\<close> of every function that calls it.
  \<^verbatim>\<open>DEFAULT_NAMESPACE\<close> is \<^verbatim>\<open>omero.constants.metadata.NSCLIENTMAPANNOTATION\<close>.
\<close>

definition DEFAULT_NAMESPACE :: string where
  "DEFAULT_NAMESPACE = ''openmicroscopy.org/omero/client/mapAnnotation''"

text \<open>
  \<^verbatim>\<open>transformToMaprNamespace\<close>, lines 195 to 207. \<^verbatim>\<open>.group()\<close> on \<^verbatim>\<open>None\<close> raises
  \<^verbatim>\<open>AttributeError\<close>. The loop has no \<^verbatim>\<open>break\<close>: every namespace that matches
  overwrites \<^verbatim>\<open>result\<close>.
\<close>
definition transformToMaprNamespace :: "string list \<Rightarrow> string \<Rightarrow> error + string" where
  "transformToMaprNamespace mapr_ns_list orig_ns =
     (case re_search orig_ns of
        None \<Rightarrow> Inl AttributeError
      | Some only_letters_ns \<Rightarrow>
          Inr (fold (\<lambda>namespace result.
                       if str_in (lower only_letters_ns) (lower namespace)
                       then namespace else result)
                 mapr_ns_list ''''))"

section \<open>\<^verbatim>\<open>split_data\<close>\<close>

text \<open>Lines 356 to 361: the values of the keys that start with \<^verbatim>\<open>_\<close> become tags.\<close>
fun single_tags :: "kvdict \<Rightarrow> string list \<Rightarrow> string list" where
  "single_tags [] new_tags = new_tags"
| "single_tags ((key, values) # rest) new_tags =
     single_tags rest (if startswith key ''_'' then new_tags @ values else new_tags)"

text \<open>Lines 371 to 375.\<close>
fun flat_values :: "string \<Rightarrow> string list \<Rightarrow> kv list \<Rightarrow> kv list" where
  "flat_values key [] new_KVpairs_list = new_KVpairs_list"
| "flat_values key (v # values) new_KVpairs_list =
     flat_values key values
       (if (key, v) \<in> set new_KVpairs_list then new_KVpairs_list
        else new_KVpairs_list @ [(key, v)])"

text \<open>Lines 368 to 375, with the \<^verbatim>\<open>assert\<close> of line 370.\<close>
fun flat_pairs :: "kvdict \<Rightarrow> kv list \<Rightarrow> error + kv list" where
  "flat_pairs [] new_KVpairs_list = Inr new_KVpairs_list"
| "flat_pairs ((key, values) # rest) new_KVpairs_list =
     (if startswith key ''_'' then Inl AssertionError
      else flat_pairs rest (flat_values key values new_KVpairs_list))"

text \<open>Lines 380 to 382.\<close>
definition resolve_namespace :: "string list \<Rightarrow> string \<Rightarrow> error + string" where
  "resolve_namespace mapr_ns_list namespace =
     (if startswith namespace ''_'' then Inr DEFAULT_NAMESPACE
      else transformToMaprNamespace mapr_ns_list namespace)"

text \<open>Lines 389 to 391.\<close>
fun add_values :: "string list \<Rightarrow> string list \<Rightarrow> string list" where
  "add_values [] old = old"
| "add_values (v # values) old =
     add_values values (if v \<in> set old then old else old @ [v])"

text \<open>\<^verbatim>\<open>d[key]\<close> after \<^verbatim>\<open>if key not in d: d[key] = []\<close> (or \<^verbatim>\<open>= {}\<close>).\<close>
definition entry :: "('k \<times> 'v list) list \<Rightarrow> 'k \<Rightarrow> 'v list" where
  "entry d k = (case map_of d k of None \<Rightarrow> [] | Some v \<Rightarrow> v)"

text \<open>Lines 386 to 391, on the dict of one namespace.\<close>
fun add_keys :: "kvdict \<Rightarrow> kvdict \<Rightarrow> kvdict" where
  "add_keys [] d = d"
| "add_keys ((key, values) # rest) d =
     add_keys rest (AList.update key (add_values values (entry d key)) d)"

text \<open>Lines 384 to 391.\<close>
definition add_namespace :: "string \<Rightarrow> kvdict \<Rightarrow> nsdict \<Rightarrow> nsdict" where
  "add_namespace namespace key_values new_KVpairs_dict =
     AList.update namespace (add_keys key_values (entry new_KVpairs_dict namespace))
       new_KVpairs_dict"

text \<open>Lines 377 to 391.\<close>
definition namespaced_pairs :: "string list \<Rightarrow> string \<Rightarrow> kvdict \<Rightarrow> nsdict \<Rightarrow> error + nsdict" where
  "namespaced_pairs mapr_ns_list namespace key_values new_KVpairs_dict =
     (case resolve_namespace mapr_ns_list namespace of
        Inl e \<Rightarrow> Inl e
      | Inr ns \<Rightarrow> Inr (add_namespace ns key_values new_KVpairs_dict))"

text \<open>
  The loop of lines 352 to 391 over \<^verbatim>\<open>data_dict.items()\<close>; the three results are
  the accumulators.
\<close>
fun split_loop :: "bool \<Rightarrow> string list \<Rightarrow> hierarchy \<Rightarrow>
    string list \<times> kv list \<times> nsdict \<Rightarrow> error + string list \<times> kv list \<times> nsdict" where
  "split_loop pst mapr_ns_list [] acc = Inr acc"
| "split_loop pst mapr_ns_list ((None, key_values) # rest) (new_tags, kvl, kvd) =
     split_loop pst mapr_ns_list rest
       (if pst then single_tags key_values new_tags else new_tags, kvl, kvd)"
| "split_loop pst mapr_ns_list ((Some namespace, key_values) # rest) (new_tags, kvl, kvd) =
     (case (if length mapr_ns_list = 0 then flat_pairs key_values kvl else Inr kvl) of
        Inl e \<Rightarrow> Inl e
      | Inr kvl' \<Rightarrow>
          (case (if length mapr_ns_list > 0
                 then namespaced_pairs mapr_ns_list namespace key_values kvd
                 else Inr kvd) of
             Inl e \<Rightarrow> Inl e
           | Inr kvd' \<Rightarrow> split_loop pst mapr_ns_list rest (new_tags, kvl', kvd')))"

text \<open>
  \<^verbatim>\<open>split_data(script_params, data_dict)\<close>; \<open>pst\<close> is
  \<^verbatim>\<open>script_params["Process_single_tags"]\<close>.
\<close>
definition split_data :: "bool \<Rightarrow> string list \<Rightarrow> hierarchy \<Rightarrow>
    error + string list \<times> kv list \<times> nsdict" where
  "split_data pst mapr_ns_list data_dict = split_loop pst mapr_ns_list data_dict ([], [], [])"

section \<open>The annotations of an image on the OMERO server\<close>

text \<open>
  What the script sees of the server through the gateway: the annotations linked to the
  image, in the order \<^verbatim>\<open>image.listAnnotations()\<close> yields them, and the text values of
  all tag annotations of the server. A map annotation has a namespace (\<^verbatim>\<open>getNs()\<close>,
  possibly \<^verbatim>\<open>None\<close>) and a list of key/value pairs (\<^verbatim>\<open>getValue()\<close>). An annotation
  is identified by its place in the list, which stands for its id; each linked tag
  annotation has one link to the image. \<open>requests\<close> records the calls that change the
  server, in the order in which they are issued. Saving and linking an annotation and
  deleting the link of a tag are carried out whenever they are requested; the delete
  command on map annotations is the one call whose failure the script handles, and the
  one whose outcome the model leaves open.
\<close>

datatype annotation =
    MapAnnotationWrapper "string option" "kv list"
  | TagAnnotationWrapper string
  | OtherAnnotation

datatype request =
    Delete2 "string option"
  | DeleteLink string
  | SaveTag string
  | LinkTag string
  | LinkMap "string option" "kv list"

record omero =
  linked :: "annotation list"
  server_tags :: "string list"
  requests :: "request list"

text \<open>
  The outcome of submitting a \<^verbatim>\<open>Delete2\<close> command and waiting for it (lines 103 to
  106): it is carried out, or an exception is raised and nothing is deleted.
  \<open>Raised m\<close> carries the attribute \<^verbatim>\<open>message\<close> of the exception object, \<open>None\<close> when
  the object has no such attribute (as every exception class of Python 3 that does not
  define one itself). The outcome is a parameter of the model, given per namespace.
\<close>
datatype outcome = Done | Raised "string option"

type_synonym submit = "string option \<Rightarrow> outcome"

text \<open>The snapshot \<^verbatim>\<open>{namespace: {key: [values]}}\<close> of the existing map annotations.\<close>
type_synonym existing = "(string option \<times> kvdict) list"

text \<open>Lines 37 to 40.\<close>
fun add_key_values :: "kv list \<Rightarrow> kvdict \<Rightarrow> kvdict" where
  "add_key_values [] d = d"
| "add_key_values ((key, v) # rest) d =
     add_key_values rest (AList.update key (entry d key @ [v]) d)"

text \<open>Lines 31 to 40.\<close>
fun existing_loop :: "annotation list \<Rightarrow> existing \<Rightarrow> existing" where
  "existing_loop [] e = e"
| "existing_loop (MapAnnotationWrapper namespace key_values # rest) e =
     existing_loop rest (AList.update namespace (add_key_values key_values (entry e namespace)) e)"
| "existing_loop (TagAnnotationWrapper t # rest) e = existing_loop rest e"
| "existing_loop (OtherAnnotation # rest) e = existing_loop rest e"

definition get_existing_map_annotations :: "omero \<Rightarrow> existing" where
  "get_existing_map_annotations conn = existing_loop (linked conn) []"

text \<open>
  \<^verbatim>\<open>get_tag_dict\<close>: the dict from tag name to id, of which the script uses the keys
  (line 446 fetches the tag of that name again).
\<close>
fun tag_dict_loop :: "string list \<Rightarrow> string list \<Rightarrow> string list" where
  "tag_dict_loop [] tag_dict = tag_dict"
| "tag_dict_loop (name # rest) tag_dict =
     tag_dict_loop rest (if name \<notin> set tag_dict then tag_dict @ [name] else tag_dict)"

definition get_tag_dict :: "omero \<Rightarrow> string list" where
  "get_tag_dict conn = tag_dict_loop (server_tags conn) []"

fun linked_tags :: "annotation list \<Rightarrow> string list" where
  "linked_tags [] = []"
| "linked_tags (TagAnnotationWrapper v # rest) = v # linked_tags rest"
| "linked_tags (MapAnnotationWrapper namespace key_values # rest) = linked_tags rest"
| "linked_tags (OtherAnnotation # rest) = linked_tags rest"

definition get_linked_tag_annotations :: "omero \<Rightarrow> string list" where
  "get_linked_tag_annotations conn = linked_tags (linked conn)"

text \<open>The test of line 100.\<close>
fun is_map_annotation_of :: "string option \<Rightarrow> annotation \<Rightarrow> bool" where
  "is_map_annotation_of namespace (MapAnnotationWrapper ns key_values) = (ns = namespace)"
| "is_map_annotation_of namespace (TagAnnotationWrapper t) = False"
| "is_map_annotation_of namespace OtherAnnotation = False"

text \<open>
  \<^verbatim>\<open>remove_map_annotations\<close>, lines 98 to 109. The handler of line 109 reads
  \<^verbatim>\<open>ex.message\<close>, which raises \<^verbatim>\<open>AttributeError\<close> when the exception has no such
  attribute; that error leaves the function.
\<close>
definition remove_map_annotations :: "submit \<Rightarrow> omero \<Rightarrow> string option \<Rightarrow> error + omero" where
  "remove_map_annotations sub conn namespace =
     (let conn' = conn\<lparr>requests := requests conn @ [Delete2 namespace]\<rparr>
      in case sub namespace of
           Done \<Rightarrow>
             Inr (conn'\<lparr>linked := filter (\<lambda>ann. \<not> is_map_annotation_of namespace ann) (linked conn)\<rparr>)
         | Raised None \<Rightarrow> Inl AttributeError
         | Raised (Some message) \<Rightarrow> Inr conn')"

fun is_tag_annotation :: "annotation \<Rightarrow> bool" where
  "is_tag_annotation (TagAnnotationWrapper t) = True"
| "is_tag_annotation (MapAnnotationWrapper namespace key_values) = False"
| "is_tag_annotation OtherAnnotation = False"

text \<open>
  \<^verbatim>\<open>remove_tag_annotations\<close>, lines 126 to 151: the link of every tag annotation of
  the image is deleted and counted.
\<close>
definition remove_tag_annotations :: "omero \<Rightarrow> omero \<times> int" where
  "remove_tag_annotations conn =
     (conn\<lparr>linked := filter (\<lambda>ann. \<not> is_tag_annotation ann) (linked conn),
           requests := requests conn @ map DeleteLink (linked_tags (linked conn))\<rparr>,
      int (length (linked_tags (linked conn))))"

text \<open>A new tag annotation is saved (lines 436 to 438 and 518 to 520).\<close>
definition save_tag :: "omero \<Rightarrow> string \<Rightarrow> omero" where
  "save_tag conn v =
     conn\<lparr>server_tags := server_tags conn @ [v], requests := requests conn @ [SaveTag v]\<rparr>"

text \<open>\<^verbatim>\<open>image.linkAnnotation(tag_ann)\<close>\<close>
definition link_tag :: "omero \<Rightarrow> string \<Rightarrow> omero" where
  "link_tag conn v =
     conn\<lparr>linked := linked conn @ [TagAnnotationWrapper v],
          requests := requests conn @ [LinkTag v]\<rparr>"

text \<open>A new map annotation is made, saved and linked (lines 470 to 474 and alike).\<close>
definition link_map :: "omero \<Rightarrow> string option \<Rightarrow> kv list \<Rightarrow> omero" where
  "link_map conn namespace kv_list =
     conn\<lparr>linked := linked conn @ [MapAnnotationWrapper namespace kv_list],
          requests := requests conn @ [LinkMap namespace kv_list]\<rparr>"

text \<open>The list \<^verbatim>\<open>[[key, value], ...]\<close> of a dict \<^verbatim>\<open>{key: [values]}\<close> (lines 498 to 501).\<close>
definition kv_list_of :: "kvdict \<Rightarrow> kv list" where
  "kv_list_of key_values = concat (map (\<lambda>(key, values). map (Pair key) values) key_values)"

section \<open>\<^verbatim>\<open>annotateObject\<close>: Overwrite\<close>

text \<open>Lines 433 to 448.\<close>
fun link_tags_overwrite :: "string list \<Rightarrow> string list \<Rightarrow> omero \<Rightarrow> int \<Rightarrow> omero \<times> int" where
  "link_tags_overwrite [] tag_dict conn counter = (conn, counter)"
| "link_tags_overwrite (tag_value # rest) tag_dict conn counter =
     (if tag_value \<notin> set tag_dict
      then link_tags_overwrite rest (tag_dict @ [tag_value])
             (link_tag (save_tag conn tag_value) tag_value) (counter + 1)
      else link_tags_overwrite rest tag_dict (link_tag conn tag_value) (counter + 1))"

text \<open>Lines 429 to 449; the result is the connection and \<^verbatim>\<open>counter_tag_ann\<close>.\<close>
definition overwrite_tags :: "string list \<Rightarrow> omero \<Rightarrow> int \<Rightarrow> omero \<times> int" where
  "overwrite_tags new_tags conn counter_tag_ann =
     (if length new_tags > 0
      then (case remove_tag_annotations conn of
              (conn1, count_removed) \<Rightarrow>
                (case link_tags_overwrite new_tags (get_tag_dict conn1) conn1 0 of
                   (conn2, counter) \<Rightarrow> (conn2, counter - count_removed)))
      else (conn, counter_tag_ann))"

text \<open>Lines 453 to 475; the result is the connection and \<^verbatim>\<open>counter_map_ann\<close>.\<close>
definition overwrite_list ::
    "submit \<Rightarrow> string list \<Rightarrow> kv list \<Rightarrow> omero \<Rightarrow> int \<Rightarrow> error + omero \<times> int" where
  "overwrite_list sub mapr_ns_list new_KVpairs_list conn counter_map_ann =
     (if length new_KVpairs_list > 0
      then if length mapr_ns_list \<noteq> 0 then Inl AssertionError
           else
             (let namespace = Some DEFAULT_NAMESPACE;
                  existing_map_annotations = get_existing_map_annotations conn;
                  existing_map_annotations_lists =
                    (if length existing_map_annotations > 0
                     then (case map_of existing_map_annotations namespace of
                             None \<Rightarrow> []
                           | Some key_values \<Rightarrow> kv_list_of key_values)
                     else []);
                  combined_KV_list = new_KVpairs_list @ existing_map_annotations_lists
              in case remove_map_annotations sub conn namespace of
                   Inl e \<Rightarrow> Inl e
                 | Inr conn1 \<Rightarrow>
                     Inr (link_map conn1 namespace combined_KV_list,
                          counter_map_ann + int (length new_KVpairs_list)))
      else Inr (conn, counter_map_ann))"

text \<open>\<^verbatim>\<open>namespace in new_KVpairs_dict\<close> for a namespace of the snapshot.\<close>
definition in_new_dict :: "string option \<Rightarrow> nsdict \<Rightarrow> bool" where
  "in_new_dict namespace new_KVpairs_dict =
     (case namespace of None \<Rightarrow> False | Some ns \<Rightarrow> map_of new_KVpairs_dict ns \<noteq> None)"

text \<open>\<^verbatim>\<open>namespace in mapr_namespaces\<close> for a namespace of the snapshot.\<close>
definition in_mapr :: "string option \<Rightarrow> string list \<Rightarrow> bool" where
  "in_mapr namespace mapr_namespaces =
     (case namespace of None \<Rightarrow> False | Some ns \<Rightarrow> ns \<in> set mapr_namespaces)"

text \<open>
  Lines 487 to 490, over the entries of the snapshot; the result is the connection and
  \<^verbatim>\<open>deleted\<close>. \<^verbatim>\<open>len(existing_map_annotations[namespace])\<close> is the number of keys.
\<close>
fun remove_absent ::
    "submit \<Rightarrow> string list \<Rightarrow> nsdict \<Rightarrow> existing \<Rightarrow> omero \<Rightarrow> int \<Rightarrow> error + omero \<times> int" where
  "remove_absent sub mapr_namespaces new_KVpairs_dict [] conn deleted = Inr (conn, deleted)"
| "remove_absent sub mapr_namespaces new_KVpairs_dict ((namespace, key_values) # rest) conn deleted =
     (if in_mapr namespace mapr_namespaces \<and> \<not> in_new_dict namespace new_KVpairs_dict
      then (case remove_map_annotations sub conn namespace of
              Inl e \<Rightarrow> Inl e
            | Inr conn1 \<Rightarrow>
                remove_absent sub mapr_namespaces new_KVpairs_dict rest conn1
                  (deleted + int (length key_values)))
      else remove_absent sub mapr_namespaces new_KVpairs_dict rest conn deleted)"

text \<open>
  Lines 492 to 505, over the entries of \<^verbatim>\<open>new_KVpairs_dict\<close>; \<open>n\<close> is
  \<^verbatim>\<open>len(new_KVpairs_dict)\<close>; the result is the connection, \<^verbatim>\<open>deleted\<close> and \<^verbatim>\<open>added\<close>.
\<close>
fun write_new ::
    "submit \<Rightarrow> existing \<Rightarrow> nat \<Rightarrow> nsdict \<Rightarrow> omero \<Rightarrow> int \<Rightarrow> int \<Rightarrow> error + omero \<times> int \<times> int" where
  "write_new sub existing_map_annotations n [] conn deleted added = Inr (conn, deleted, added)"
| "write_new sub existing_map_annotations n ((namespace, key_values) # rest) conn deleted added =
     (let deleted' =
            (case map_of existing_map_annotations (Some namespace) of
               None \<Rightarrow> deleted
             | Some old \<Rightarrow> deleted + int (length old))
      in case remove_map_annotations sub conn (Some namespace) of
           Inl e \<Rightarrow> Inl e
         | Inr conn1 \<Rightarrow>
             write_new sub existing_map_annotations n rest
               (link_map conn1 (Some namespace) (kv_list_of key_values))
               deleted' (added + int n))"

text \<open>Lines 478 to 506.\<close>
definition overwrite_dict ::
    "submit \<Rightarrow> string list \<Rightarrow> nsdict \<Rightarrow> omero \<Rightarrow> int \<Rightarrow> error + omero \<times> int" where
  "overwrite_dict sub mapr_ns_list new_KVpairs_dict conn counter_map_ann =
     (if length new_KVpairs_dict > 0
      then if \<not> length mapr_ns_list > 0 then Inl AssertionError
           else
             (let existing_map_annotations = get_existing_map_annotations conn
              in case (if length existing_map_annotations > 0
                       then remove_absent sub mapr_ns_list new_KVpairs_dict
                              existing_map_annotations conn 0
                       else Inr (conn, 0)) of
                   Inl e \<Rightarrow> Inl e
                 | Inr (conn1, deleted) \<Rightarrow>
                     (case write_new sub existing_map_annotations (length new_KVpairs_dict)
                             new_KVpairs_dict conn1 deleted 0 of
                        Inl e \<Rightarrow> Inl e
                      | Inr (conn2, deleted', added) \<Rightarrow> Inr (conn2, added - deleted')))
      else Inr (conn, counter_map_ann))"

section \<open>\<^verbatim>\<open>annotateObject\<close>: Append\<close>

text \<open>Lines 515 to 527; the tag dict and the list of linked tags are read once.\<close>
fun link_tags_append ::
    "string list \<Rightarrow> string list \<Rightarrow> string list \<Rightarrow> omero \<Rightarrow> int \<Rightarrow> omero \<times> int" where
  "link_tags_append [] existing_tags tag_dict conn counter_tag_ann = (conn, counter_tag_ann)"
| "link_tags_append (t # rest) existing_tags tag_dict conn counter_tag_ann =
     (if t \<notin> set existing_tags
      then if t \<notin> set tag_dict
           then link_tags_append rest existing_tags tag_dict
                  (link_tag (save_tag conn t) t) (counter_tag_ann + 1)
           else link_tags_append rest existing_tags tag_dict
                  (link_tag conn t) (counter_tag_ann + 1)
      else link_tags_append rest existing_tags tag_dict conn counter_tag_ann)"

text \<open>Lines 512 to 527.\<close>
definition append_tags :: "string list \<Rightarrow> omero \<Rightarrow> int \<Rightarrow> omero \<times> int" where
  "append_tags new_tags conn counter_tag_ann =
     (if length new_tags > 0
      then link_tags_append new_tags (get_linked_tag_annotations conn) (get_tag_dict conn)
             conn counter_tag_ann
      else (conn, counter_tag_ann))"

text \<open>Lines 542 to 545.\<close>
fun append_values :: "string list \<Rightarrow> string list \<Rightarrow> int \<Rightarrow> string list \<times> int" where
  "append_values [] old counter_map_ann = (old, counter_map_ann)"
| "append_values (v # values) old counter_map_ann =
     (if v \<notin> set old then append_values values (old @ [v]) (counter_map_ann + 1)
      else append_values values old counter_map_ann)"

text \<open>Lines 539 to 545.\<close>
fun append_keys :: "kvdict \<Rightarrow> kvdict \<Rightarrow> int \<Rightarrow> kvdict \<times> int" where
  "append_keys [] d counter_map_ann = (d, counter_map_ann)"
| "append_keys ((key, values) # rest) d counter_map_ann =
     (case append_values values (entry d key) counter_map_ann of
        (values', counter') \<Rightarrow> append_keys rest (AList.update key values' d) counter')"

text \<open>Lines 536 to 545.\<close>
fun append_namespaces :: "nsdict \<Rightarrow> existing \<Rightarrow> int \<Rightarrow> existing \<times> int" where
  "append_namespaces [] existing_kvPairs counter_map_ann = (existing_kvPairs, counter_map_ann)"
| "append_namespaces ((namespace, key_values) # rest) existing_kvPairs counter_map_ann =
     (case append_keys key_values (entry existing_kvPairs (Some namespace)) counter_map_ann of
        (d, counter') \<Rightarrow>
          append_namespaces rest (AList.update (Some namespace) d existing_kvPairs) counter')"

text \<open>Lines 549 to 559.\<close>
fun rewrite_all :: "submit \<Rightarrow> existing \<Rightarrow> omero \<Rightarrow> error + omero" where
  "rewrite_all sub [] conn = Inr conn"
| "rewrite_all sub ((namespace, key_values) # rest) conn =
     (case remove_map_annotations sub conn namespace of
        Inl e \<Rightarrow> Inl e
      | Inr conn1 \<Rightarrow> rewrite_all sub rest (link_map conn1 namespace (kv_list_of key_values)))"

text \<open>Lines 531 to 559.\<close>
definition append_dict ::
    "submit \<Rightarrow> string list \<Rightarrow> nsdict \<Rightarrow> omero \<Rightarrow> int \<Rightarrow> error + omero \<times> int" where
  "append_dict sub mapr_ns_list new_KVpairs_dict conn counter_map_ann =
     (if length new_KVpairs_dict > 0
      then if \<not> length mapr_ns_list > 0 then Inl AssertionError
           else
             (case append_namespaces new_KVpairs_dict (get_existing_map_annotations conn)
                     counter_map_ann of
                (existing_kvPairs, counter') \<Rightarrow>
                  (case rewrite_all sub existing_kvPairs conn of
                     Inl e \<Rightarrow> Inl e
                   | Inr conn1 \<Rightarrow> Inr (conn1, counter')))
      else Inr (conn, counter_map_ann))"

text \<open>Lines 574 to 577.\<close>
fun append_pairs :: "kv list \<Rightarrow> kv list \<Rightarrow> int \<Rightarrow> kv list \<times> int" where
  "append_pairs [] updated_list counter_map_ann = (updated_list, counter_map_ann)"
| "append_pairs (key_value # rest) updated_list counter_map_ann =
     (if key_value \<notin> set updated_list
      then append_pairs rest (updated_list @ [key_value]) (counter_map_ann + 1)
      else append_pairs rest updated_list counter_map_ann)"

text \<open>Lines 563 to 585.\<close>
definition append_list ::
    "submit \<Rightarrow> string list \<Rightarrow> kv list \<Rightarrow> omero \<Rightarrow> int \<Rightarrow> error + omero \<times> int" where
  "append_list sub mapr_ns_list new_KVpairs_list conn counter_map_ann =
     (if length new_KVpairs_list > 0
      then if length mapr_ns_list \<noteq> 0 then Inl AssertionError
           else
             (let existing_kvPairs = get_existing_map_annotations conn;
                  updated_list =
                    (case map_of existing_kvPairs (Some DEFAULT_NAMESPACE) of
                       None \<Rightarrow> []
                     | Some key_values \<Rightarrow> kv_list_of key_values)
              in case append_pairs new_KVpairs_list updated_list counter_map_ann of
                   (updated_list', counter') \<Rightarrow>
                     (case remove_map_annotations sub conn (Some DEFAULT_NAMESPACE) of
                        Inl e \<Rightarrow> Inl e
                      | Inr conn1 \<Rightarrow>
                          Inr (link_map conn1 (Some DEFAULT_NAMESPACE) updated_list', counter')))
      else Inr (conn, counter_map_ann))"

section \<open>\<^verbatim>\<open>annotateObject\<close>\<close>

record script_params =
  Process_single_tags :: bool
  What_to_do_with_existing_Annotations :: string

text \<open>Lines 426 to 506; the counters come in and go out as (map, tag).\<close>
definition overwrite ::
    "submit \<Rightarrow> string list \<Rightarrow> string list \<Rightarrow> kv list \<Rightarrow> nsdict \<Rightarrow> omero \<Rightarrow> int \<Rightarrow> int \<Rightarrow>
     error + omero \<times> int \<times> int" where
  "overwrite sub mapr_ns_list new_tags new_KVpairs_list new_KVpairs_dict conn
      counter_map_ann counter_tag_ann =
     (case overwrite_tags new_tags conn counter_tag_ann of
        (conn1, counter_tag_ann') \<Rightarrow>
          (case overwrite_list sub mapr_ns_list new_KVpairs_list conn1 counter_map_ann of
             Inl e \<Rightarrow> Inl e
           | Inr (conn2, counter_map_ann') \<Rightarrow>
               (case overwrite_dict sub mapr_ns_list new_KVpairs_dict conn2 counter_map_ann' of
                  Inl e \<Rightarrow> Inl e
                | Inr (conn3, counter_map_ann'') \<Rightarrow>
                    Inr (conn3, counter_map_ann'', counter_tag_ann'))))"

text \<open>Lines 509 to 585.\<close>
definition append ::
    "submit \<Rightarrow> string list \<Rightarrow> string list \<Rightarrow> kv list \<Rightarrow> nsdict \<Rightarrow> omero \<Rightarrow> int \<Rightarrow> int \<Rightarrow>
     error + omero \<times> int \<times> int" where
  "append sub mapr_ns_list new_tags new_KVpairs_list new_KVpairs_dict conn
      counter_map_ann counter_tag_ann =
     (case append_tags new_tags conn counter_tag_ann of
        (conn1, counter_tag_ann') \<Rightarrow>
          (case append_dict sub mapr_ns_list new_KVpairs_dict conn1 counter_map_ann of
             Inl e \<Rightarrow> Inl e
           | Inr (conn2, counter_map_ann') \<Rightarrow>
               (case append_list sub mapr_ns_list new_KVpairs_list conn2 counter_map_ann' of
                  Inl e \<Rightarrow> Inl e
                | Inr (conn3, counter_map_ann'') \<Rightarrow>
                    Inr (conn3, counter_map_ann'', counter_tag_ann'))))"

text \<open>
  \<^verbatim>\<open>annotateObject(conn, script_params, image, data_dict)\<close>: the result is the server
  after the calls, \<^verbatim>\<open>counter_map_ann\<close> and \<^verbatim>\<open>counter_tag_ann\<close>.
\<close>
definition annotateObject ::
    "submit \<Rightarrow> string list \<Rightarrow> script_params \<Rightarrow> omero \<Rightarrow> hierarchy \<Rightarrow>
     error + omero \<times> int \<times> int" where
  "annotateObject sub mapr_ns_list params conn data_dict =
     (case split_data (Process_single_tags params) mapr_ns_list data_dict of
        Inl e \<Rightarrow> Inl e
      | Inr (new_tags, new_KVpairs_list, new_KVpairs_dict) \<Rightarrow>
          (case (if What_to_do_with_existing_Annotations params = ''Overwrite''
                 then overwrite sub mapr_ns_list new_tags new_KVpairs_list new_KVpairs_dict
                        conn 0 0
                 else Inr (conn, 0, 0)) of
             Inl e \<Rightarrow> Inl e
           | Inr (conn1, counter_map_ann, counter_tag_ann) \<Rightarrow>
               (if What_to_do_with_existing_Annotations params = ''Append''
                then append sub mapr_ns_list new_tags new_KVpairs_list new_KVpairs_dict
                       conn1 counter_map_ann counter_tag_ann
                else Inr (conn1, counter_map_ann, counter_tag_ann))))"

section \<open>What is read off the server in the statements\<close>

text \<open>The delete command is always carried out.\<close>
definition always_done :: submit where
  "always_done namespace = Done"

text \<open>
  The delete command always raises an exception, whose attribute \<^verbatim>\<open>message\<close> is
  \<open>m\<close>, or which has none.
\<close>
definition always_raised :: "string option \<Rightarrow> submit" where
  "always_raised m namespace = Raised m"

text \<open>The key/value pairs of the map annotations of a namespace, in the order of the listing.\<close>
fun stored_pairs :: "annotation list \<Rightarrow> string option \<Rightarrow> kv list" where
  "stored_pairs [] namespace = []"
| "stored_pairs (MapAnnotationWrapper ns key_values # rest) namespace =
     (if ns = namespace then key_values @ stored_pairs rest namespace
      else stored_pairs rest namespace)"
| "stored_pairs (TagAnnotationWrapper t # rest) namespace = stored_pairs rest namespace"
| "stored_pairs (OtherAnnotation # rest) namespace = stored_pairs rest namespace"

text \<open>An image without annotations on a server that knows the given tags.\<close>
definition fresh :: "string list \<Rightarrow> omero" where
  "fresh tags = \<lparr>linked = [], server_tags = tags, requests = []\<rparr>"

text \<open>An image with the given annotations.\<close>
definition image_with :: "annotation list \<Rightarrow> string list \<Rightarrow> omero" where
  "image_with anns tags = \<lparr>linked = anns, server_tags = tags, requests = []\<rparr>"

section \<open>Strings and the regular expression\<close>

lemma startswith_iff: "startswith s p \<longleftrightarrow> (\<exists>t. s = p @ t)"
proof
  assume "startswith s p"
  then have "s = p @ drop (length p) s"
    unfolding startswith_def by (metis append_take_drop_id)
  then show "\<exists>t. s = p @ t" ..
next
  assume "\<exists>t. s = p @ t"
  then show "startswith s p" unfolding startswith_def by auto
qed

lemma str_in_iff: "str_in sub s \<longleftrightarrow> (\<exists>pre post. s = pre @ sub @ post)"
proof (induction s)
  case Nil
  then show ?case by auto
next
  case (Cons c cs)
  show ?case
  proof
    assume "str_in sub (c # cs)"
    then consider "startswith (c # cs) sub" | "str_in sub cs" by auto
    then show "\<exists>pre post. c # cs = pre @ sub @ post"
    proof cases
      case 1
      then obtain t where "c # cs = sub @ t" unfolding startswith_iff ..
      then have "c # cs = [] @ sub @ t" by simp
      then show ?thesis by blast
    next
      case 2
      with Cons obtain pre post where "cs = pre @ sub @ post" by blast
      then have "c # cs = (c # pre) @ sub @ post" by simp
      then show ?thesis by blast
    qed
  next
    assume "\<exists>pre post. c # cs = pre @ sub @ post"
    then obtain pre post where e: "c # cs = pre @ sub @ post" by blast
    show "str_in sub (c # cs)"
    proof (cases pre)
      case Nil
      with e have "startswith (c # cs) sub" unfolding startswith_iff by auto
      then show ?thesis by simp
    next
      case (Cons a pre')
      with e have "cs = pre' @ sub @ post" by simp
      with Cons.IH have "str_in sub cs" by blast
      then show ?thesis by simp
    qed
  qed
qed

lemma length_takeWhile_append:
  "length (takeWhile P xs) \<le> length (takeWhile P (xs @ ys))"
  by (induction xs) auto

text \<open>
  A match of \<open>re_search\<close> is a piece of the string made of at least three characters of
  the class, with no match before it and no character of the class right after it.
\<close>
lemma re_search_Some_piece:
  "re_search s = Some m \<Longrightarrow>
   \<exists>pre post. s = pre @ m @ post \<and> 3 \<le> length m \<and> (\<forall>c\<in>set m. letter_or_space c) \<and>
     re_search pre = None \<and> (post = [] \<or> \<not> letter_or_space (hd post))"
proof (induction s)
  case Nil
  then show ?case by simp
next
  case (Cons c cs)
  let ?m = "takeWhile letter_or_space (c # cs)"
  show ?case
  proof (cases "3 \<le> length ?m")
    case True
    with Cons.prems have m: "m = ?m" by (simp add: Let_def)
    have "c # cs = [] @ m @ dropWhile letter_or_space (c # cs)"
      unfolding m by simp
    moreover have "\<forall>c\<in>set m. letter_or_space c"
      unfolding m by (meson set_takeWhileD)
    moreover have "dropWhile letter_or_space (c # cs) = [] \<or>
        \<not> letter_or_space (hd (dropWhile letter_or_space (c # cs)))"
      by (metis hd_dropWhile)
    ultimately show ?thesis using True m
      by (metis re_search.simps(1))
  next
    case False
    with Cons.prems have "re_search cs = Some m" by (simp add: Let_def)
    from Cons.IH [OF this] obtain pre post where
      p: "cs = pre @ m @ post" "3 \<le> length m" "\<forall>c\<in>set m. letter_or_space c"
         "re_search pre = None" "post = [] \<or> \<not> letter_or_space (hd post)"
      by blast
    have "length (takeWhile letter_or_space (c # pre)) \<le>
          length (takeWhile letter_or_space ((c # pre) @ m @ post))"
      by (rule length_takeWhile_append)
    with False p(1) have "\<not> 3 \<le> length (takeWhile letter_or_space (c # pre))"
      by simp
    with p(4) have "re_search (c # pre) = None" by (simp add: Let_def)
    moreover have "c # cs = (c # pre) @ m @ post" using p(1) by simp
    ultimately show ?thesis using p(2,3,5) by blast
  qed
qed

lemma re_search_finds:
  "3 \<le> length m \<Longrightarrow> \<forall>c\<in>set m. letter_or_space c \<Longrightarrow> re_search (pre @ m @ post) \<noteq> None"
proof (induction pre)
  case Nil
  then have "takeWhile letter_or_space (m @ post) = m @ takeWhile letter_or_space post"
    by (simp add: takeWhile_append2)
  moreover from Nil obtain a m' where "m = a # m'" by (cases m) auto
  ultimately show ?case using Nil(1)
    by (simp add: Let_def del: takeWhile.simps takeWhile_append2)
next
  case (Cons a pre)
  then show ?case by (simp add: Let_def)
qed

text \<open>There is no match exactly when no three characters of the class stand in a row.\<close>
lemma re_search_None_iff:
  "re_search s = None \<longleftrightarrow>
   \<not> (\<exists>pre m post. s = pre @ m @ post \<and> 3 \<le> length m \<and> (\<forall>c\<in>set m. letter_or_space c))"
proof
  assume "re_search s = None"
  then show "\<not> (\<exists>pre m post. s = pre @ m @ post \<and> 3 \<le> length m \<and>
      (\<forall>c\<in>set m. letter_or_space c))"
    using re_search_finds by blast
next
  assume n: "\<not> (\<exists>pre m post. s = pre @ m @ post \<and> 3 \<le> length m \<and>
      (\<forall>c\<in>set m. letter_or_space c))"
  show "re_search s = None"
  proof (cases "re_search s")
    case None
    then show ?thesis .
  next
    case (Some m)
    from re_search_Some_piece [OF this] n show ?thesis by blast
  qed
qed

text \<open>The loop of lines 202 to 206 keeps the last namespace that passes the test.\<close>
lemma last_match_fold:
  "fold (\<lambda>namespace result. if P namespace then namespace else result) xs r =
   (case filter P xs of [] \<Rightarrow> r | y # ys \<Rightarrow> last (y # ys))"
  by (induction xs arbitrary: r) (auto split: list.splits)

section \<open>The shape of the result of \<^verbatim>\<open>split_data\<close>\<close>

lemma split_loop_flat_dict:
  "split_loop pst [] h (t, l, d) = Inr (t', l', d') \<Longrightarrow> d' = d"
proof (induction h arbitrary: t l d)
  case Nil
  then show ?case by simp
next
  case (Cons a h)
  obtain ns kvs where a: "a = (ns, kvs)" by (cases a)
  show ?case
  proof (cases ns)
    case None
    with Cons a show ?thesis by simp
  next
    case (Some n)
    with Cons a show ?thesis by (auto split: sum.splits)
  qed
qed

lemma split_loop_aware_list:
  "mapr \<noteq> [] \<Longrightarrow> split_loop pst mapr h (t, l, d) = Inr (t', l', d') \<Longrightarrow> l' = l"
proof (induction h arbitrary: t l d)
  case Nil
  then show ?case by simp
next
  case (Cons a h)
  obtain ns kvs where a: "a = (ns, kvs)" by (cases a)
  show ?case
  proof (cases ns)
    case None
    with Cons a show ?thesis by simp
  next
    case (Some n)
    with Cons a show ?thesis by (auto split: sum.splits)
  qed
qed

lemma flat_pairs_error: "flat_pairs kvs l = Inl e \<Longrightarrow> e = AssertionError"
  by (induction kvs l rule: flat_pairs.induct) (auto split: if_splits)

lemma flat_pairs_marker:
  "(key, values) \<in> set kvs \<Longrightarrow> startswith key ''_'' \<Longrightarrow> flat_pairs kvs l = Inl AssertionError"
  by (induction kvs l rule: flat_pairs.induct) auto

lemma split_loop_flat_marker:
  "(Some ns, kvs) \<in> set h \<Longrightarrow> (key, values) \<in> set kvs \<Longrightarrow> startswith key ''_'' \<Longrightarrow>
   split_loop pst [] h acc = Inl AssertionError"
proof (induction h arbitrary: acc)
  case Nil
  then show ?case by simp
next
  case (Cons a h)
  obtain ns' kvs' where a: "a = (ns', kvs')" by (cases a)
  obtain t l d where acc: "acc = (t, l, d)" by (cases acc)
  show ?case
  proof (cases "a = (Some ns, kvs)")
    case True
    with Cons.prems acc show ?thesis by (simp add: flat_pairs_marker)
  next
    case False
    with Cons.prems have mem: "(Some ns, kvs) \<in> set h" by simp
    show ?thesis
    proof (cases ns')
      case None
      with Cons.IH [OF mem Cons.prems(2,3)] a acc show ?thesis by simp
    next
      case (Some n)
      show ?thesis
      proof (cases "flat_pairs kvs' l")
        case (Inl e)
        with flat_pairs_error have "e = AssertionError" by blast
        with Inl Some a acc show ?thesis by simp
      next
        case (Inr l')
        with Cons.IH [OF mem Cons.prems(2,3)] Some a acc show ?thesis by simp
      qed
    qed
  qed
qed

lemma transformToMaprNamespace_error:
  "transformToMaprNamespace mapr ns = Inl e \<Longrightarrow> e = AttributeError"
  unfolding transformToMaprNamespace_def by (auto split: option.splits)

lemma namespaced_pairs_error:
  "namespaced_pairs mapr ns kvs d = Inl e \<Longrightarrow> e = AttributeError"
  unfolding namespaced_pairs_def resolve_namespace_def
  by (auto split: sum.splits if_splits dest: transformToMaprNamespace_error)

lemma split_loop_aware_raises:
  "mapr \<noteq> [] \<Longrightarrow> (Some ns, kvs) \<in> set h \<Longrightarrow> resolve_namespace mapr ns = Inl AttributeError \<Longrightarrow>
   split_loop pst mapr h acc = Inl AttributeError"
proof (induction h arbitrary: acc)
  case Nil
  then show ?case by simp
next
  case (Cons a h)
  obtain ns' kvs' where a: "a = (ns', kvs')" by (cases a)
  obtain t l d where acc: "acc = (t, l, d)" by (cases acc)
  show ?case
  proof (cases "a = (Some ns, kvs)")
    case True
    with Cons.prems acc show ?thesis by (simp add: namespaced_pairs_def)
  next
    case False
    with Cons.prems have mem: "(Some ns, kvs) \<in> set h" by simp
    note ih = Cons.IH [OF Cons.prems(1) mem Cons.prems(3)]
    show ?thesis
    proof (cases ns')
      case None
      with ih a acc show ?thesis by simp
    next
      case (Some n)
      show ?thesis
      proof (cases "namespaced_pairs mapr n kvs' d")
        case (Inl e)
        with namespaced_pairs_error have "e = AttributeError" by blast
        with Inl Some a acc Cons.prems(1) show ?thesis by simp
      next
        case (Inr d')
        with ih Some a acc Cons.prems(1) show ?thesis by simp
      qed
    qed
  qed
qed

section \<open>The claims on the namespace resolver and the normalizer\<close>

text \<open>
  C5. For every hierarchy, with an empty Namespace Directory the normalizer leaves the
  namespaced key/value mapping empty, and with a non-empty directory it leaves the flat
  key/value list empty: a run fills at most one of the two shapes.
\<close>
theorem split_data_shapes_exclusive:
  "(split_data pst [] data_dict = Inr (new_tags, kvl, kvd) \<longrightarrow> kvd = []) \<and>
   (mapr_ns_list \<noteq> [] \<longrightarrow> split_data pst mapr_ns_list data_dict = Inr (new_tags', kvl', kvd') \<longrightarrow>
      kvl' = [])"
  unfolding split_data_def
  using split_loop_flat_dict split_loop_aware_list by blast

theorem split_data_shapes_exclusive_witness:
  "split_data True []
     [(Some ''01_Bio'', [(''species'', [''mouse''])]), (None, [(''_workspace'', [''untagged''])])] =
     Inr ([''untagged''], [(''species'', ''mouse'')], []) \<and>
   [''Biosample info''] \<noteq> [] \<and>
   split_data True [''Biosample info'']
     [(Some ''01_Bio'', [(''species'', [''mouse''])]), (None, [(''_workspace'', [''untagged''])])] =
     Inr ([''untagged''], [], [(''Biosample info'', [(''species'', [''mouse''])])])"
proof -
  let ?h = "[(Some ''01_Bio'', [(''species'', [''mouse''])]),
             (None, [(''_workspace'', [''untagged''])])]"
  have flat: "split_data True [] ?h = Inr ([''untagged''], [(''species'', ''mouse'')], [])"
    by code_simp
  have aware: "split_data True [''Biosample info''] ?h =
      Inr ([''untagged''], [], [(''Biosample info'', [(''species'', [''mouse''])])])"
    by code_simp
  from split_data_shapes_exclusive [of True ?h "[''untagged'']" "[(''species'', ''mouse'')]" "[]"
      "[''Biosample info'']" "[''untagged'']" "[]"
      "[(''Biosample info'', [(''species'', [''mouse''])])]"] flat aware
  show ?thesis by simp
qed

text \<open>
  C6, as the claim states it, fails: when several entries of the directory contain the
  letters of the raw namespace, the resolver does not return the first of them.
\<close>
theorem resolve_first_entry_counterexample:
  "re_search ''01_Biosample'' = Some ''Biosample'' \<and>
   str_in (lower ''Biosample'') (lower ''Biosample info'') \<and>
   resolve_namespace [''Biosample info'', ''Biosample extra''] ''01_Biosample'' \<noteq>
     Inr ''Biosample info''"
  by code_simp

text \<open>
  C6, amended. The resolver returns the default namespace whenever the raw namespace
  starts with the reserved marker. Otherwise, when the raw namespace has a run of at least
  three letters or white-space characters, it takes the first such run (at least three
  characters of the class, no match before it, no character of the class after it) and
  returns the last entry of the directory whose name contains the run as a
  case-insensitive piece, or the empty string if no entry does. In particular the raw
  namespace 01_Biosample with the directory Organism, Biosample info gives
  Biosample info.
\<close>
theorem resolve_last_entry:
  "(startswith raw ''_'' \<longrightarrow> resolve_namespace directory raw = Inr DEFAULT_NAMESPACE) \<and>
   (\<not> startswith raw ''_'' \<longrightarrow> re_search raw = Some p \<longrightarrow>
      (\<exists>pre post. raw = pre @ p @ post \<and> re_search pre = None \<and>
         (post = [] \<or> \<not> letter_or_space (hd post))) \<and>
      3 \<le> length p \<and> (\<forall>c\<in>set p. letter_or_space c) \<and>
      resolve_namespace directory raw =
        Inr (case filter (\<lambda>n. str_in (lower p) (lower n)) directory of
               [] \<Rightarrow> [] | m # ms \<Rightarrow> last (m # ms))) \<and>
   resolve_namespace [''Organism'', ''Biosample info''] ''01_Biosample'' = Inr ''Biosample info''"
proof (intro conjI impI)
  assume "startswith raw ''_''"
  then show "resolve_namespace directory raw = Inr DEFAULT_NAMESPACE"
    by (simp add: resolve_namespace_def)
next
  assume "re_search raw = Some p"
  from re_search_Some_piece [OF this]
  show "\<exists>pre post. raw = pre @ p @ post \<and> re_search pre = None \<and>
         (post = [] \<or> \<not> letter_or_space (hd post))"
    by blast
next
  assume "re_search raw = Some p"
  from re_search_Some_piece [OF this] show "3 \<le> length p" by blast
next
  assume "re_search raw = Some p"
  from re_search_Some_piece [OF this] show "\<forall>c\<in>set p. letter_or_space c" by blast
next
  assume "\<not> startswith raw ''_''" "re_search raw = Some p"
  then show "resolve_namespace directory raw =
      Inr (case filter (\<lambda>n. str_in (lower p) (lower n)) directory of
             [] \<Rightarrow> [] | m # ms \<Rightarrow> last (m # ms))"
    by (simp add: resolve_namespace_def transformToMaprNamespace_def last_match_fold)
next
  show "resolve_namespace [''Organism'', ''Biosample info''] ''01_Biosample'' =
      Inr ''Biosample info''"
    by code_simp
qed

theorem resolve_last_entry_witness:
  "startswith ''_workspace:root'' ''_'' \<and>
   resolve_namespace [''Organism''] ''_workspace:root'' = Inr DEFAULT_NAMESPACE \<and>
   \<not> startswith ''01_Biosample'' ''_'' \<and> re_search ''01_Biosample'' = Some ''Biosample'' \<and>
   resolve_namespace [''Biosample info'', ''Organism'', ''Biosample extra''] ''01_Biosample'' =
     Inr ''Biosample extra''"
proof -
  have m: "startswith ''_workspace:root'' ''_''" by code_simp
  have n: "\<not> startswith ''01_Biosample'' ''_''" by code_simp
  have r: "re_search ''01_Biosample'' = Some ''Biosample''" by code_simp
  have f: "filter (\<lambda>n. str_in (lower ''Biosample'') (lower n))
             [''Biosample info'', ''Organism'', ''Biosample extra''] =
           [''Biosample info'', ''Biosample extra'']"
    by code_simp
  from resolve_last_entry [of "''_workspace:root''" "[''Organism'']" "''Biosample''"] m
  have "resolve_namespace [''Organism''] ''_workspace:root'' = Inr DEFAULT_NAMESPACE"
    by blast
  moreover
  from resolve_last_entry [of "''01_Biosample''"
      "[''Biosample info'', ''Organism'', ''Biosample extra'']" "''Biosample''"] n r
  have "resolve_namespace [''Biosample info'', ''Organism'', ''Biosample extra''] ''01_Biosample'' =
      Inr (case filter (\<lambda>n. str_in (lower ''Biosample'') (lower n))
                  [''Biosample info'', ''Organism'', ''Biosample extra''] of
             [] \<Rightarrow> [] | m # ms \<Rightarrow> last (m # ms))"
    by blast
  ultimately show ?thesis using m n r f by simp
qed

text \<open>
  C8. With an empty Namespace Directory, for every hierarchy that holds, under a namespace
  that is not none, a key starting with the reserved marker, the normalizer raises the
  assertion error of the consistency check; no key/value pair is made of the entry.
\<close>
theorem split_data_marker_key_asserts:
  "(Some namespace, key_values) \<in> set data_dict \<Longrightarrow> (key, values) \<in> set key_values \<Longrightarrow>
   startswith key ''_'' \<Longrightarrow> split_data pst [] data_dict = Inl AssertionError"
  unfolding split_data_def by (rule split_loop_flat_marker)

theorem split_data_marker_key_asserts_witness:
  "(Some ''01_Bio'', [(''species'', [''mouse'']), (''_workspace'', [''untagged''])]) \<in>
     set [(Some ''01_Bio'', [(''species'', [''mouse'']), (''_workspace'', [''untagged''])])] \<and>
   (''_workspace'', [''untagged'']) \<in>
     set [(''species'', [''mouse'']), (''_workspace'', [''untagged''])] \<and>
   startswith ''_workspace'' ''_'' \<and>
   split_data True []
     [(Some ''01_Bio'', [(''species'', [''mouse'']), (''_workspace'', [''untagged''])])] =
     Inl AssertionError"
proof -
  have a: "(Some ''01_Bio'', [(''species'', [''mouse'']), (''_workspace'', [''untagged''])]) \<in>
     set [(Some ''01_Bio'', [(''species'', [''mouse'']), (''_workspace'', [''untagged''])])]"
    by simp
  have b: "(''_workspace'', [''untagged'']) \<in>
     set [(''species'', [''mouse'']), (''_workspace'', [''untagged''])]"
    by simp
  have c: "startswith ''_workspace'' ''_''" by code_simp
  from split_data_marker_key_asserts [OF a b c, of True] a b c show ?thesis by blast
qed

text \<open>
  C10. The resolver is partial: for a raw namespace that does not start with the reserved
  marker and has no three letters or white-space characters in a row, the search of the
  regular expression finds nothing, reading its result raises an attribute error and no
  empty string is returned; with a non-empty Namespace Directory the normalization of a
  hierarchy that holds this namespace fails with that error.
\<close>
theorem resolve_without_letters_raises:
  "\<not> startswith raw ''_'' \<Longrightarrow>
   \<not> (\<exists>pre m post. raw = pre @ m @ post \<and> 3 \<le> length m \<and> (\<forall>c\<in>set m. letter_or_space c)) \<Longrightarrow>
   resolve_namespace directory raw = Inl AttributeError \<and>
   (directory \<noteq> [] \<longrightarrow> (Some raw, key_values) \<in> set data_dict \<longrightarrow>
      split_data pst directory data_dict = Inl AttributeError)"
proof -
  assume m: "\<not> startswith raw ''_''"
    and n: "\<not> (\<exists>pre m post. raw = pre @ m @ post \<and> 3 \<le> length m \<and>
                (\<forall>c\<in>set m. letter_or_space c))"
  from n have "re_search raw = None" using re_search_None_iff by blast
  with m have r: "resolve_namespace directory raw = Inl AttributeError"
    by (simp add: resolve_namespace_def transformToMaprNamespace_def)
  moreover have "split_data pst directory data_dict = Inl AttributeError"
    if "directory \<noteq> []" "(Some raw, key_values) \<in> set data_dict"
    unfolding split_data_def using that r by (rule split_loop_aware_raises)
  ultimately show ?thesis by blast
qed

theorem resolve_without_letters_raises_witness:
  "\<not> startswith ''01_'' ''_'' \<and>
   \<not> (\<exists>pre m post. ''01_'' = pre @ m @ post \<and> 3 \<le> length m \<and>
        (\<forall>c\<in>set m. letter_or_space c)) \<and>
   resolve_namespace [''Biosample info''] ''01_'' = Inl AttributeError \<and>
   [''Biosample info''] \<noteq> [] \<and>
   (Some ''01_'', [(''species'', [''mouse''])]) \<in> set [(Some ''01_'', [(''species'', [''mouse''])])] \<and>
   split_data True [''Biosample info''] [(Some ''01_'', [(''species'', [''mouse''])])] =
     Inl AttributeError"
proof -
  have m: "\<not> startswith ''01_'' ''_''" by code_simp
  have "re_search ''01_'' = None" by code_simp
  then have n: "\<not> (\<exists>pre m post. ''01_'' = pre @ m @ post \<and> 3 \<le> length m \<and>
        (\<forall>c\<in>set m. letter_or_space c))"
    using re_search_None_iff by blast
  from resolve_without_letters_raises [OF m n, of "[''Biosample info'']"
      "[(''species'', [''mouse''])]" "[(Some ''01_'', [(''species'', [''mouse''])])]" True]
  show ?thesis using m n by simp
qed

section \<open>The annotations listed and the snapshot\<close>

lemma linked_tags_append [simp]: "linked_tags (xs @ ys) = linked_tags xs @ linked_tags ys"
  by (induction xs rule: linked_tags.induct) auto

lemma stored_pairs_append [simp]:
  "stored_pairs (xs @ ys) ns = stored_pairs xs ns @ stored_pairs ys ns"
  by (induction xs ns rule: stored_pairs.induct) auto


lemma linked_tags_map_Tag [simp]: "linked_tags (map TagAnnotationWrapper ts) = ts"
  by (induction ts) auto

lemma stored_pairs_map_Tag [simp]: "stored_pairs (map TagAnnotationWrapper ts) ns = []"
  by (induction ts) auto

lemma existing_loop_map_Tag [simp]: "existing_loop (map TagAnnotationWrapper ts) e = e"
  by (induction ts) auto

lemma linked_tags_remove_map [simp]:
  "linked_tags (filter (\<lambda>ann. \<not> is_map_annotation_of n ann) l) = linked_tags l"
  by (induction l rule: linked_tags.induct) auto

lemma linked_tags_remove_tags [simp]:
  "linked_tags (filter (\<lambda>ann. \<not> is_tag_annotation ann) l) = []"
  by (induction l rule: linked_tags.induct) auto

lemma stored_pairs_remove_tags [simp]:
  "stored_pairs (filter (\<lambda>ann. \<not> is_tag_annotation ann) l) ns = stored_pairs l ns"
  by (induction l ns rule: stored_pairs.induct) auto

lemma existing_loop_remove_tags [simp]:
  "existing_loop (filter (\<lambda>ann. \<not> is_tag_annotation ann) l) e = existing_loop l e"
  by (induction l e rule: existing_loop.induct) auto

lemma stored_pairs_remove_map [simp]:
  "stored_pairs (filter (\<lambda>ann. \<not> is_map_annotation_of n ann) l) ns =
   (if n = ns then [] else stored_pairs l ns)"
  by (induction l ns rule: stored_pairs.induct) auto

lemma entry_update: "entry (AList.update k x d) k' = (if k = k' then x else entry d k')"
  by (simp add: entry_def update_conv')

lemma set_kv_list_of:
  "set (kv_list_of d) = {(k, v). \<exists>vs. (k, vs) \<in> set d \<and> v \<in> set vs}"
  by (auto simp: kv_list_of_def)

lemma in_kv_list_of:
  "distinct (map fst d) \<Longrightarrow> (k, v) \<in> set (kv_list_of d) \<longleftrightarrow> v \<in> set (entry d k)"
  by (auto simp: set_kv_list_of entry_def split: option.splits)

lemma add_key_values_distinct:
  "distinct (map fst d) \<Longrightarrow> distinct (map fst (add_key_values kvs d))"
  by (induction kvs d rule: add_key_values.induct) (auto simp: distinct_update)

lemma add_key_values_entry:
  "set (entry (add_key_values kvs d) k) = set (entry d k) \<union> {v. (k, v) \<in> set kvs}"
  by (induction kvs d rule: add_key_values.induct) (auto simp: entry_update)

lemma set_update_subset: "set (AList.update k x d) \<subseteq> insert (k, x) (set d)"
  by (induction d) auto

lemma existing_loop_inv:
  "distinct (map fst e) \<Longrightarrow> \<forall>x\<in>set e. distinct (map fst (snd x)) \<Longrightarrow>
   distinct (map fst (existing_loop l e)) \<and>
   (\<forall>x\<in>set (existing_loop l e). distinct (map fst (snd x)))"
proof (induction l e rule: existing_loop.induct)
  case (2 namespace key_values rest e)
  let ?d = "add_key_values key_values (entry e namespace)"
  let ?e = "AList.update namespace ?d e"
  have "distinct (map fst (entry e namespace))"
    using 2(3) by (auto simp: entry_def split: option.splits dest!: map_of_SomeD)
  then have d: "distinct (map fst ?d)" by (rule add_key_values_distinct)
  have "distinct (map fst ?e)" using 2(2) by (simp add: distinct_update)
  moreover have "\<forall>x\<in>set ?e. distinct (map fst (snd x))"
    using set_update_subset [of namespace ?d e] d 2(3) by auto
  ultimately show ?case using 2(1) by simp
qed auto

lemma existing_loop_entry:
  "set (entry (entry (existing_loop l e) ns) k) =
   set (entry (entry e ns) k) \<union> {v. (k, v) \<in> set (stored_pairs l ns)}"
proof (induction l e rule: existing_loop.induct)
  case (2 namespace key_values rest e)
  show ?case
    by (auto simp: 2 entry_update add_key_values_entry)
qed auto

lemma entry_Nil [simp]: "entry [] k = []"
  by (simp add: entry_def)

text \<open>the snapshot holds, per namespace, the stored pairs\<close>
lemma snapshot_pairs:
  "set (kv_list_of (entry (get_existing_map_annotations conn) ns)) =
   set (stored_pairs (linked conn) ns)"
proof -
  let ?e = "get_existing_map_annotations conn"
  have inv: "distinct (map fst ?e) \<and> (\<forall>x\<in>set ?e. distinct (map fst (snd x)))"
    unfolding get_existing_map_annotations_def by (rule existing_loop_inv) simp_all
  then have "distinct (map fst (entry ?e ns))"
    by (auto simp: entry_def split: option.splits dest!: map_of_SomeD)
  then have "\<And>k v. (k, v) \<in> set (kv_list_of (entry ?e ns)) \<longleftrightarrow> v \<in> set (entry (entry ?e ns) k)"
    by (rule in_kv_list_of)
  moreover have "\<And>k. set (entry (entry ?e ns) k) = {v. (k, v) \<in> set (stored_pairs (linked conn) ns)}"
    unfolding get_existing_map_annotations_def by (simp add: existing_loop_entry)
  ultimately show ?thesis by auto
qed

lemma snapshot_keys:
  "map_of (existing_loop l e) ns = None \<longleftrightarrow>
   map_of e ns = None \<and> (\<forall>kvs. MapAnnotationWrapper ns kvs \<notin> set l)"
  by (induction l e rule: existing_loop.induct) (auto simp: update_conv')

section \<open>Overwrite\<close>

lemma remove_map_annotations_Inr:
  "remove_map_annotations sub conn n = Inr conn' \<Longrightarrow>
   server_tags conn' = server_tags conn \<and> requests conn' = requests conn @ [Delete2 n] \<and>
   (linked conn' = filter (\<lambda>ann. \<not> is_map_annotation_of n ann) (linked conn) \<or>
    linked conn' = linked conn)"
  by (auto simp: remove_map_annotations_def Let_def split: outcome.splits option.splits)

lemma remove_map_annotations_Done:
  "sub n = Done \<Longrightarrow>
   remove_map_annotations sub conn n =
     Inr (conn\<lparr>requests := requests conn @ [Delete2 n],
              linked := filter (\<lambda>ann. \<not> is_map_annotation_of n ann) (linked conn)\<rparr>)"
  by (simp add: remove_map_annotations_def Let_def)

lemma remove_map_annotations_tags:
  "remove_map_annotations sub conn n = Inr conn' \<Longrightarrow>
   linked_tags (linked conn') = linked_tags (linked conn)"
  by (auto dest!: remove_map_annotations_Inr)



lemma overwrite_list_Nil [simp]: "overwrite_list sub mapr [] conn c = Inr (conn, c)"
  by (simp add: overwrite_list_def)

lemma overwrite_dict_Nil [simp]: "overwrite_dict sub mapr [] conn c = Inr (conn, c)"
  by (simp add: overwrite_dict_def)





lemma annotateObject_Append:
  "What_to_do_with_existing_Annotations params = ''Append'' \<Longrightarrow>
   split_data (Process_single_tags params) mapr h = Inr (tags, kvl, kvd) \<Longrightarrow>
   annotateObject sub mapr params conn h = append sub mapr tags kvl kvd conn 0 0"
  by (auto simp: annotateObject_def split: sum.splits)









lemma split_data_flat:
  "split_data pst [] h = Inr (tags, kvl, kvd) \<Longrightarrow> kvd = []"
  unfolding split_data_def by (rule split_loop_flat_dict)

lemma split_data_aware:
  "mapr \<noteq> [] \<Longrightarrow> split_data pst mapr h = Inr (tags, kvl, kvd) \<Longrightarrow> kvl = []"
  unfolding split_data_def by (rule split_loop_aware_list)

section \<open>The claims on Overwrite\<close>

text \<open>
  C1. The claim (the net key/value count of Overwrite with a Namespace Directory is the
  number of pairs written minus the number of pairs that existed under the namespaces
  superseded or deleted) against the code, evaluated: on an image without annotations,
  one namespace with the two pairs species/mouse and species/rat is written and nothing
  existed, and the count returned is 1, the square of the number of namespaces, where the
  claim gives 2. On an image that holds three pairs of one key under the namespace, one
  pair is written and three are superseded, and the count returned is 0, the square of
  the number of namespaces minus the number of keys superseded, where the claim gives -2.
\<close>
theorem overwrite_namespaced_count_two_pairs:
  "annotateObject always_done [''Biosample info'']
     \<lparr>Process_single_tags = True, What_to_do_with_existing_Annotations = ''Overwrite''\<rparr>
     (fresh []) [(Some ''01_Biosample'', [(''species'', [''mouse'', ''rat''])])] =
   Inr (\<lparr>linked = [MapAnnotationWrapper (Some ''Biosample info'')
                      [(''species'', ''mouse''), (''species'', ''rat'')]],
         server_tags = [],
         requests = [Delete2 (Some ''Biosample info''),
                     LinkMap (Some ''Biosample info'')
                       [(''species'', ''mouse''), (''species'', ''rat'')]]\<rparr>, 1, 0) \<and>
   annotateObject always_done [''Biosample info'']
     \<lparr>Process_single_tags = True, What_to_do_with_existing_Annotations = ''Overwrite''\<rparr>
     (image_with [MapAnnotationWrapper (Some ''Biosample info'')
                    [(''species'', ''mouse''), (''species'', ''rat''), (''species'', ''dog'')]] [])
     [(Some ''01_Biosample'', [(''species'', [''cat''])])] =
   Inr (\<lparr>linked = [MapAnnotationWrapper (Some ''Biosample info'') [(''species'', ''cat'')]],
         server_tags = [],
         requests = [Delete2 (Some ''Biosample info''),
                     LinkMap (Some ''Biosample info'') [(''species'', ''cat'')]]\<rparr>, 0, 0)"
  by code_simp







text \<open>
  C9. The claim (a failing delete is logged and the reconciliation goes on) against the
  code, evaluated: when the delete raises an exception object that has no attribute
  \<^verbatim>\<open>message\<close>, the handler of \<^verbatim>\<open>remove_map_annotations\<close> raises an attribute
  error while it formats the log line, and \<^verbatim>\<open>annotateObject\<close> ends with that error.
  Only an exception that carries a message is logged, after which the run goes on.
\<close>
theorem failed_delete_aborts:
  "annotateObject (always_raised None) []
     \<lparr>Process_single_tags = True, What_to_do_with_existing_Annotations = ''Overwrite''\<rparr>
     (fresh []) [(Some ''01_Bio'', [(''species'', [''mouse''])])] =
   Inl AttributeError \<and>
   annotateObject (always_raised (Some ''constraint violation'')) []
     \<lparr>Process_single_tags = True, What_to_do_with_existing_Annotations = ''Overwrite''\<rparr>
     (fresh []) [(Some ''01_Bio'', [(''species'', [''mouse''])])] =
   Inr (\<lparr>linked = [MapAnnotationWrapper (Some DEFAULT_NAMESPACE) [(''species'', ''mouse'')]],
         server_tags = [],
         requests = [Delete2 (Some DEFAULT_NAMESPACE),
                     LinkMap (Some DEFAULT_NAMESPACE) [(''species'', ''mouse'')]]\<rparr>, 1, 0)"
  by code_simp

section \<open>Append\<close>

lemma link_tags_append_result:
  "link_tags_append tags ex td conn c = (conn', c') \<Longrightarrow>
   linked conn' = linked conn @ map TagAnnotationWrapper (filter (\<lambda>t. t \<notin> set ex) tags) \<and>
   c' = c + int (length (filter (\<lambda>t. t \<notin> set ex) tags)) \<and>
   (\<exists>rs. requests conn' = requests conn @ rs)"
  by (induction tags ex td conn c rule: link_tags_append.induct)
     (auto simp: link_tag_def save_tag_def split: if_splits)

lemma append_tags_result:
  "append_tags tags conn c = (conn', c') \<Longrightarrow>
   linked conn' = linked conn @
     map TagAnnotationWrapper (filter (\<lambda>t. t \<notin> set (linked_tags (linked conn))) tags) \<and>
   c' = c + int (length (filter (\<lambda>t. t \<notin> set (linked_tags (linked conn))) tags)) \<and>
   (\<exists>rs. requests conn' = requests conn @ rs)"
  by (cases "tags = []")
     (auto simp: append_tags_def get_linked_tag_annotations_def dest!: link_tags_append_result)

lemma append_values_set:
  "append_values vs old c = (vs', c') \<Longrightarrow> set vs' = set old \<union> set vs"
  by (induction vs old c rule: append_values.induct) (auto split: if_splits)

lemma append_keys_distinct:
  "append_keys kvs d c = (d', c') \<Longrightarrow> distinct (map fst d) \<Longrightarrow> distinct (map fst d')"
  by (induction kvs d c rule: append_keys.induct)
     (auto simp: distinct_update split: prod.splits)

lemma append_keys_entry:
  "append_keys kvs d c = (d', c') \<Longrightarrow> set (entry d k) \<subseteq> set (entry d' k)"
proof (induction kvs d c rule: append_keys.induct)
  case (1 d c)
  then show ?case by simp
next
  case (2 key vals rest d c)
  obtain vs' c1 where av: "append_values vals (entry d key) c = (vs', c1)"
    by (cases "append_values vals (entry d key) c")
  with 2 have "set (entry (AList.update key vs' d) k) \<subseteq> set (entry d' k)" by simp
  moreover from append_values_set [OF av]
  have "set (entry d k) \<subseteq> set (entry (AList.update key vs' d) k)"
    by (auto simp: entry_update)
  ultimately show ?case by blast
qed

lemma entry_distinct:
  "\<forall>x\<in>set e. distinct (map fst (snd x)) \<Longrightarrow> distinct (map fst (entry e n))"
  by (auto simp: entry_def split: option.splits dest!: map_of_SomeD)

lemma append_namespaces_inv:
  "append_namespaces new e c = (e', c') \<Longrightarrow>
   distinct (map fst e) \<Longrightarrow> \<forall>x\<in>set e. distinct (map fst (snd x)) \<Longrightarrow>
   distinct (map fst e') \<and> (\<forall>x\<in>set e'. distinct (map fst (snd x)))"
proof (induction new e c rule: append_namespaces.induct)
  case (1 e c)
  then show ?case by simp
next
  case (2 namespace key_values rest e c)
  obtain d c1 where ak: "append_keys key_values (entry e (Some namespace)) c = (d, c1)"
    by (cases "append_keys key_values (entry e (Some namespace)) c")
  let ?e = "AList.update (Some namespace) d e"
  from 2(4) have "distinct (map fst (entry e (Some namespace)))" by (rule entry_distinct)
  with ak have d: "distinct (map fst d)" by (rule append_keys_distinct)
  have "distinct (map fst ?e)" using 2(3) by (simp add: distinct_update)
  moreover have "\<forall>x\<in>set ?e. distinct (map fst (snd x))"
    using set_update_subset [of "Some namespace" d e] d 2(4) by auto
  moreover from 2(2) ak have "append_namespaces rest ?e c1 = (e', c')" by simp
  ultimately show ?case by (rule 2(1) [OF ak [symmetric], rotated 1])
qed

lemma append_namespaces_entry:
  "append_namespaces new e c = (e', c') \<Longrightarrow>
   set (entry (entry e ns) k) \<subseteq> set (entry (entry e' ns) k)"
proof (induction new e c rule: append_namespaces.induct)
  case (1 e c)
  then show ?case by simp
next
  case (2 namespace key_values rest e c)
  obtain d c1 where ak: "append_keys key_values (entry e (Some namespace)) c = (d, c1)"
    by (cases "append_keys key_values (entry e (Some namespace)) c")
  let ?e = "AList.update (Some namespace) d e"
  from 2 ak have "set (entry (entry ?e ns) k) \<subseteq> set (entry (entry e' ns) k)" by simp
  moreover from append_keys_entry [OF ak]
  have "set (entry (entry e ns) k) \<subseteq> set (entry (entry ?e ns) k)"
    by (auto simp: entry_update)
  ultimately show ?case by blast
qed


lemma rewrite_all_keeps:
  "rewrite_all sub es conn = Inr conn' \<Longrightarrow> p \<in> set (stored_pairs (linked conn) ns) \<Longrightarrow>
   (\<forall>d. (ns, d) \<in> set es \<longrightarrow> p \<in> set (kv_list_of d)) \<Longrightarrow>
   p \<in> set (stored_pairs (linked conn') ns)"
proof (induction es arbitrary: conn)
  case Nil
  then show ?case by simp
next
  case (Cons a es)
  obtain n d where a: "a = (n, d)" by (cases a)
  from Cons.prems(1) a obtain c1 where
    r: "remove_map_annotations sub conn n = Inr c1"
    and w: "rewrite_all sub es (link_map c1 n (kv_list_of d)) = Inr conn'"
    by (auto split: sum.splits)
  have "p \<in> set (stored_pairs (linked (link_map c1 n (kv_list_of d))) ns)"
  proof (cases "n = ns")
    case True
    with Cons.prems(3) a have "p \<in> set (kv_list_of d)" by simp
    with True show ?thesis by (simp add: link_map_def)
  next
    case False
    with remove_map_annotations_Inr [OF r] Cons.prems(2) show ?thesis
      by (auto simp: link_map_def)
  qed
  moreover from Cons.prems(3) have "\<forall>d. (ns, d) \<in> set es \<longrightarrow> p \<in> set (kv_list_of d)" by simp
  ultimately show ?case using Cons.IH [OF w] by blast
qed

lemma rewrite_all_tags:
  "rewrite_all sub es conn = Inr conn' \<Longrightarrow> linked_tags (linked conn') = linked_tags (linked conn)"
proof (induction es arbitrary: conn)
  case Nil
  then show ?case by simp
next
  case (Cons a es)
  obtain n d where a: "a = (n, d)" by (cases a)
  from Cons.prems(1) a obtain c1 where
    r: "remove_map_annotations sub conn n = Inr c1"
    and w: "rewrite_all sub es (link_map c1 n (kv_list_of d)) = Inr conn'"
    by (auto split: sum.splits)
  from Cons.IH [OF w] remove_map_annotations_tags [OF r] show ?case
    by (simp add: link_map_def)
qed

lemma rewrite_all_Done:
  "\<forall>n. sub n = Done \<Longrightarrow>
   \<exists>conn'. rewrite_all sub es conn = Inr conn' \<and>
     requests conn' = requests conn @
       concat (map (\<lambda>(n, d). [Delete2 n, LinkMap n (kv_list_of d)]) es) \<and>
     (distinct (map fst es) \<longrightarrow>
        (\<forall>ns. stored_pairs (linked conn') ns =
           (case map_of es ns of None \<Rightarrow> stored_pairs (linked conn) ns
            | Some d \<Rightarrow> kv_list_of d)))"
proof (induction es arbitrary: conn)
  case Nil
  then show ?case by simp
next
  case (Cons a es)
  obtain n d where a: "a = (n, d)" by (cases a)
  let ?c1 = "conn\<lparr>requests := requests conn @ [Delete2 n],
              linked := filter (\<lambda>ann. \<not> is_map_annotation_of n ann) (linked conn)\<rparr>"
  let ?c2 = "link_map ?c1 n (kv_list_of d)"
  from Cons.prems have r: "remove_map_annotations sub conn n = Inr ?c1"
    by (simp add: remove_map_annotations_Done)
  from Cons.IH [OF Cons.prems, of ?c2] obtain conn' where
    w: "rewrite_all sub es ?c2 = Inr conn'"
    and q: "requests conn' = requests ?c2 @
       concat (map (\<lambda>(n, d). [Delete2 n, LinkMap n (kv_list_of d)]) es)"
    and s: "distinct (map fst es) \<longrightarrow>
        (\<forall>ns. stored_pairs (linked conn') ns =
           (case map_of es ns of None \<Rightarrow> stored_pairs (linked ?c2) ns
            | Some d \<Rightarrow> kv_list_of d))"
    by blast
  have "rewrite_all sub (a # es) conn = Inr conn'" using a r w by simp
  moreover have "requests conn' = requests conn @
       concat (map (\<lambda>(n, d). [Delete2 n, LinkMap n (kv_list_of d)]) (a # es))"
    using q a by (simp add: link_map_def)
  moreover have "\<forall>ns. stored_pairs (linked conn') ns =
           (case map_of (a # es) ns of None \<Rightarrow> stored_pairs (linked conn) ns
            | Some d \<Rightarrow> kv_list_of d)"
    if dist: "distinct (map fst (a # es))"
  proof
    fix ns
    from dist a have n: "map_of es n = None" and de: "distinct (map fst es)"
      by (auto simp: map_of_eq_None_iff)
    from s de have e: "stored_pairs (linked conn') ns =
           (case map_of es ns of None \<Rightarrow> stored_pairs (linked ?c2) ns
            | Some d \<Rightarrow> kv_list_of d)"
      by blast
    show "stored_pairs (linked conn') ns =
           (case map_of (a # es) ns of None \<Rightarrow> stored_pairs (linked conn) ns
            | Some d \<Rightarrow> kv_list_of d)"
    proof (cases "n = ns")
      case True
      with e n a show ?thesis by (simp add: link_map_def)
    next
      case False
      with e a show ?thesis by (simp add: link_map_def split: option.splits)
    qed
  qed
  ultimately show ?case by blast
qed

lemma append_pairs_set:
  "append_pairs new upd c = (upd', c') \<Longrightarrow> set upd \<subseteq> set upd'"
  by (induction new upd c rule: append_pairs.induct) (auto split: if_splits)

lemma append_list_Nil [simp]: "append_list sub mapr [] conn c = Inr (conn, c)"
  by (simp add: append_list_def)

lemma append_dict_Nil [simp]: "append_dict sub mapr [] conn c = Inr (conn, c)"
  by (simp add: append_dict_def)

lemma snapshot_inv:
  "distinct (map fst (get_existing_map_annotations conn)) \<and>
   (\<forall>x\<in>set (get_existing_map_annotations conn). distinct (map fst (snd x)))"
  unfolding get_existing_map_annotations_def by (rule existing_loop_inv) simp_all

lemma snapshot_entry:
  "set (entry (entry (get_existing_map_annotations conn) ns) k) =
   {v. (k, v) \<in> set (stored_pairs (linked conn) ns)}"
  unfolding get_existing_map_annotations_def by (simp add: existing_loop_entry)

lemma append_dict_keeps:
  assumes "append_dict sub mapr kvd conn c = Inr (conn', c')"
  shows "set (stored_pairs (linked conn) ns) \<subseteq> set (stored_pairs (linked conn') ns)"
    and "linked_tags (linked conn') = linked_tags (linked conn)"
proof -
  let ?e = "get_existing_map_annotations conn"
  show "set (stored_pairs (linked conn) ns) \<subseteq> set (stored_pairs (linked conn') ns)"
  proof (cases "kvd = []")
    case True
    with assms show ?thesis by simp
  next
    case False
    obtain merged c1 where an: "append_namespaces kvd ?e c = (merged, c1)"
      by (cases "append_namespaces kvd ?e c")
    with assms False have rw: "rewrite_all sub merged conn = Inr conn'"
      by (auto simp: append_dict_def split: if_splits sum.splits)
    from append_namespaces_inv [OF an] snapshot_inv
    have inv: "distinct (map fst merged)" "\<forall>x\<in>set merged. distinct (map fst (snd x))"
      by blast+
    show ?thesis
    proof
      fix p
      assume p: "p \<in> set (stored_pairs (linked conn) ns)"
      obtain k v where kv: "p = (k, v)" by (cases p)
      have "p \<in> set (kv_list_of d)" if d: "(ns, d) \<in> set merged" for d
      proof -
        from d inv(1) have "entry merged ns = d" by (simp add: entry_def)
        moreover from d inv(2) have dd: "distinct (map fst d)" by auto
        moreover from p kv have "v \<in> set (entry (entry ?e ns) k)"
          by (simp add: snapshot_entry)
        with append_namespaces_entry [OF an, of ns k]
        have "v \<in> set (entry (entry merged ns) k)" by blast
        ultimately show ?thesis using kv by (simp add: in_kv_list_of)
      qed
      with rewrite_all_keeps [OF rw p] show "p \<in> set (stored_pairs (linked conn') ns)"
        by blast
    qed
  qed
  show "linked_tags (linked conn') = linked_tags (linked conn)"
    using assms
    by (cases "kvd = []")
       (auto simp: append_dict_def split: if_splits sum.splits prod.splits dest: rewrite_all_tags)
qed

lemma append_list_keeps:
  assumes "append_list sub mapr kvl conn c = Inr (conn', c')"
  shows "set (stored_pairs (linked conn) ns) \<subseteq> set (stored_pairs (linked conn') ns)"
    and "linked_tags (linked conn') = linked_tags (linked conn)"
proof -
  let ?e = "get_existing_map_annotations conn"
  let ?old = "case map_of ?e (Some DEFAULT_NAMESPACE) of None \<Rightarrow> [] | Some d \<Rightarrow> kv_list_of d"
  have old: "?old = kv_list_of (entry ?e (Some DEFAULT_NAMESPACE))"
    by (simp add: entry_def kv_list_of_def split: option.splits)
  show "set (stored_pairs (linked conn) ns) \<subseteq> set (stored_pairs (linked conn') ns)"
  proof (cases "kvl = []")
    case True
    with assms show ?thesis by simp
  next
    case False
    obtain upd c1 where ap: "append_pairs kvl ?old c = (upd, c1)"
      by (cases "append_pairs kvl ?old c")
    with assms False obtain conn1 where
      r: "remove_map_annotations sub conn (Some DEFAULT_NAMESPACE) = Inr conn1"
      and l: "conn' = link_map conn1 (Some DEFAULT_NAMESPACE) upd"
      by (auto simp: append_list_def Let_def split: if_splits sum.splits)
    from append_pairs_set [OF ap] old
    have "set (stored_pairs (linked conn) (Some DEFAULT_NAMESPACE)) \<subseteq> set upd"
      by (simp add: snapshot_pairs)
    with remove_map_annotations_Inr [OF r] l show ?thesis
      by (auto simp: link_map_def)
  qed
  show "linked_tags (linked conn') = linked_tags (linked conn)"
    using assms
    by (cases "kvl = []")
       (auto simp: append_list_def Let_def link_map_def split: if_splits sum.splits prod.splits
             dest: remove_map_annotations_tags)
qed

lemma append_result:
  assumes "append sub mapr tags kvl kvd conn 0 0 = Inr (conn', m, t)"
  shows "linked_tags (linked conn') = linked_tags (linked conn) @
           filter (\<lambda>x. x \<notin> set (linked_tags (linked conn))) tags"
    and "t = int (length (filter (\<lambda>x. x \<notin> set (linked_tags (linked conn))) tags))"
    and "set (stored_pairs (linked conn) ns) \<subseteq> set (stored_pairs (linked conn') ns)"
proof -
  obtain c1 t1 where at: "append_tags tags conn 0 = (c1, t1)"
    by (cases "append_tags tags conn 0")
  with assms obtain c2 m2 where ad: "append_dict sub mapr kvd c1 0 = Inr (c2, m2)"
    and al: "append_list sub mapr kvl c2 m2 = Inr (conn', m)" and t: "t = t1"
    by (auto simp: append_def split: sum.splits)
  note r = append_tags_result [OF at]
  from r append_dict_keeps(2) [OF ad] append_list_keeps(2) [OF al]
  show "linked_tags (linked conn') = linked_tags (linked conn) @
           filter (\<lambda>x. x \<notin> set (linked_tags (linked conn))) tags"
    by simp
  from r t show "t = int (length (filter (\<lambda>x. x \<notin> set (linked_tags (linked conn))) tags))"
    by simp
  from r have "stored_pairs (linked c1) ns = stored_pairs (linked conn) ns" by simp
  with append_dict_keeps(1) [OF ad, of ns] append_list_keeps(1) [OF al, of ns]
  show "set (stored_pairs (linked conn) ns) \<subseteq> set (stored_pairs (linked conn') ns)"
    by simp
qed

lemma append_dict_Done:
  assumes d: "\<forall>n. sub n = Done" and ne: "kvd \<noteq> []" and m: "mapr \<noteq> []"
  shows "\<exists>conn' c' merged c1.
     append_dict sub mapr kvd conn c = Inr (conn', c') \<and>
     append_namespaces kvd (get_existing_map_annotations conn) c = (merged, c1) \<and>
     requests conn' = requests conn @
       concat (map (\<lambda>(n, d). [Delete2 n, LinkMap n (kv_list_of d)]) merged) \<and>
     (\<forall>ns. stored_pairs (linked conn') ns =
           (case map_of merged ns of None \<Rightarrow> stored_pairs (linked conn) ns
            | Some d \<Rightarrow> kv_list_of d))"
proof -
  let ?e = "get_existing_map_annotations conn"
  obtain merged c1 where an: "append_namespaces kvd ?e c = (merged, c1)"
    by (cases "append_namespaces kvd ?e c")
  from append_namespaces_inv [OF an] snapshot_inv have inv: "distinct (map fst merged)" by blast
  from rewrite_all_Done [OF d, of merged conn] inv obtain conn' where
    rw: "rewrite_all sub merged conn = Inr conn'"
    and q: "requests conn' = requests conn @
       concat (map (\<lambda>(n, d). [Delete2 n, LinkMap n (kv_list_of d)]) merged)"
    and s: "\<forall>ns. stored_pairs (linked conn') ns =
           (case map_of merged ns of None \<Rightarrow> stored_pairs (linked conn) ns
            | Some d \<Rightarrow> kv_list_of d)"
    by blast
  have "append_dict sub mapr kvd conn c = Inr (conn', c1)"
    using ne m an rw by (simp add: append_dict_def)
  with an q s show ?thesis by blast
qed

lemma append_list_Done:
  assumes d: "\<forall>n. sub n = Done" and m: "kvl = [] \<or> mapr = []"
  shows "\<exists>r. append_list sub mapr kvl conn c = Inr r"
  using assms
  by (cases "kvl = []")
     (auto simp: append_list_def Let_def remove_map_annotations_Done split: prod.splits)

section \<open>The claims on Append\<close>

text \<open>
  C7. Append is monotonic: for every image and every input, a run of Append that returns
  leaves every tag linked that was linked and every key/value pair stored that was stored
  (under every namespace), it links exactly the new tags that were not linked before, in
  their order, and the net tag count is their number, so that a new tag already linked is
  neither linked again nor counted. When every delete is carried out the run returns. In
  particular with the existing tag mouse and the new tags mouse, wildtype only wildtype
  is linked and the net tag count is 1.
\<close>
theorem append_monotonic:
  assumes ap: "What_to_do_with_existing_Annotations params = ''Append''"
    and sd: "split_data (Process_single_tags params) mapr_ns_list data_dict =
             Inr (new_tags, kvl, kvd)"
  shows
    "(annotateObject sub mapr_ns_list params conn data_dict = Inr (conn', m, t) \<longrightarrow>
        set (get_linked_tag_annotations conn) \<subseteq> set (get_linked_tag_annotations conn') \<and>
        (\<forall>ns. set (stored_pairs (linked conn) ns) \<subseteq> set (stored_pairs (linked conn') ns)) \<and>
        get_linked_tag_annotations conn' =
          get_linked_tag_annotations conn @
          filter (\<lambda>x. x \<notin> set (get_linked_tag_annotations conn)) new_tags \<and>
        t = int (length (filter (\<lambda>x. x \<notin> set (get_linked_tag_annotations conn)) new_tags))) \<and>
     ((\<forall>n. sub n = Done) \<longrightarrow>
        (\<exists>r. annotateObject sub mapr_ns_list params conn data_dict = Inr r)) \<and>
     annotateObject always_done []
       \<lparr>Process_single_tags = True, What_to_do_with_existing_Annotations = ''Append''\<rparr>
       (image_with [TagAnnotationWrapper ''mouse''] [''mouse''])
       [(None, [(''_workspace'', [''mouse'', ''wildtype''])])] =
     Inr (\<lparr>linked = [TagAnnotationWrapper ''mouse'', TagAnnotationWrapper ''wildtype''],
           server_tags = [''mouse'', ''wildtype''],
           requests = [SaveTag ''wildtype'', LinkTag ''wildtype'']\<rparr>, 0, 1)"
proof -
  note ao = annotateObject_Append [OF ap sd]
  have mono: "set (get_linked_tag_annotations conn) \<subseteq> set (get_linked_tag_annotations conn') \<and>
        (\<forall>ns. set (stored_pairs (linked conn) ns) \<subseteq> set (stored_pairs (linked conn') ns)) \<and>
        get_linked_tag_annotations conn' =
          get_linked_tag_annotations conn @
          filter (\<lambda>x. x \<notin> set (get_linked_tag_annotations conn)) new_tags \<and>
        t = int (length (filter (\<lambda>x. x \<notin> set (get_linked_tag_annotations conn)) new_tags))"
    if "annotateObject sub mapr_ns_list params conn data_dict = Inr (conn', m, t)"
  proof -
    from that ao have a: "append sub mapr_ns_list new_tags kvl kvd conn 0 0 = Inr (conn', m, t)"
      by simp
    from append_result(1) [OF a] append_result(2) [OF a] append_result(3) [OF a]
    show ?thesis by (simp add: get_linked_tag_annotations_def)
  qed
  have returns: "\<exists>r. annotateObject sub mapr_ns_list params conn data_dict = Inr r"
    if d: "\<forall>n. sub n = Done"
  proof -
    obtain c1 t1 where at: "append_tags new_tags conn 0 = (c1, t1)"
      by (cases "append_tags new_tags conn 0")
    have "\<exists>c2 m2. append_dict sub mapr_ns_list kvd c1 0 = Inr (c2, m2)"
    proof (cases "kvd = []")
      case True
      then show ?thesis by simp
    next
      case False
      with sd have "mapr_ns_list \<noteq> []" by (auto dest: split_data_flat)
      from append_dict_Done [OF d False this, of c1 0] show ?thesis by blast
    qed
    then obtain c2 m2 where ad: "append_dict sub mapr_ns_list kvd c1 0 = Inr (c2, m2)" by blast
    from sd have "kvl = [] \<or> mapr_ns_list = []" by (auto dest: split_data_aware)
    from append_list_Done [OF d this, of c2 m2] obtain r where
      "append_list sub mapr_ns_list kvl c2 m2 = Inr r" by blast
    with at ad ao show ?thesis by (cases r) (simp add: append_def)
  qed
  have scenario: "annotateObject always_done []
       \<lparr>Process_single_tags = True, What_to_do_with_existing_Annotations = ''Append''\<rparr>
       (image_with [TagAnnotationWrapper ''mouse''] [''mouse''])
       [(None, [(''_workspace'', [''mouse'', ''wildtype''])])] =
     Inr (\<lparr>linked = [TagAnnotationWrapper ''mouse'', TagAnnotationWrapper ''wildtype''],
           server_tags = [''mouse'', ''wildtype''],
           requests = [SaveTag ''wildtype'', LinkTag ''wildtype'']\<rparr>, 0, 1)"
    by code_simp
  show ?thesis
  proof (intro conjI impI)
    assume r: "annotateObject sub mapr_ns_list params conn data_dict = Inr (conn', m, t)"
    from mono [OF r]
    show "set (get_linked_tag_annotations conn) \<subseteq> set (get_linked_tag_annotations conn')"
      by (rule conjunct1)
    from mono [OF r]
    show "\<forall>ns. set (stored_pairs (linked conn) ns) \<subseteq> set (stored_pairs (linked conn') ns)"
      by (elim conjE)
    from mono [OF r]
    show "get_linked_tag_annotations conn' =
          get_linked_tag_annotations conn @
          filter (\<lambda>x. x \<notin> set (get_linked_tag_annotations conn)) new_tags"
      by (elim conjE)
    from mono [OF r]
    show "t = int (length (filter (\<lambda>x. x \<notin> set (get_linked_tag_annotations conn)) new_tags))"
      by (elim conjE)
  next
    assume "\<forall>n. sub n = Done"
    then show "\<exists>r. annotateObject sub mapr_ns_list params conn data_dict = Inr r"
      by (rule returns)
  next
    show "annotateObject always_done []
       \<lparr>Process_single_tags = True, What_to_do_with_existing_Annotations = ''Append''\<rparr>
       (image_with [TagAnnotationWrapper ''mouse''] [''mouse''])
       [(None, [(''_workspace'', [''mouse'', ''wildtype''])])] =
     Inr (\<lparr>linked = [TagAnnotationWrapper ''mouse'', TagAnnotationWrapper ''wildtype''],
           server_tags = [''mouse'', ''wildtype''],
           requests = [SaveTag ''wildtype'', LinkTag ''wildtype'']\<rparr>, 0, 1)"
      by (rule scenario)
  qed
qed
theorem append_monotonic_witness:
  "What_to_do_with_existing_Annotations
     \<lparr>Process_single_tags = True, What_to_do_with_existing_Annotations = ''Append''\<rparr> =
     ''Append'' \<and>
   split_data True [''Biosample info'']
     [(Some ''01_Biosample'', [(''species'', [''mouse''])]),
      (None, [(''_workspace'', [''mouse'', ''wildtype''])])] =
     Inr ([''mouse'', ''wildtype''], [], [(''Biosample info'', [(''species'', [''mouse''])])]) \<and>
   annotateObject always_done [''Biosample info'']
     \<lparr>Process_single_tags = True, What_to_do_with_existing_Annotations = ''Append''\<rparr>
     (image_with [TagAnnotationWrapper ''mouse'',
                  MapAnnotationWrapper (Some ''Biosample info'') [(''species'', ''rat'')]]
        [''mouse''])
     [(Some ''01_Biosample'', [(''species'', [''mouse''])]),
      (None, [(''_workspace'', [''mouse'', ''wildtype''])])] =
   Inr (\<lparr>linked = [TagAnnotationWrapper ''mouse'', TagAnnotationWrapper ''wildtype'',
                    MapAnnotationWrapper (Some ''Biosample info'')
                      [(''species'', ''rat''), (''species'', ''mouse'')]],
         server_tags = [''mouse'', ''wildtype''],
         requests = [SaveTag ''wildtype'', LinkTag ''wildtype'',
                     Delete2 (Some ''Biosample info''),
                     LinkMap (Some ''Biosample info'')
                       [(''species'', ''rat''), (''species'', ''mouse'')]]\<rparr>, 1, 1) \<and>
   set (get_linked_tag_annotations
          (image_with [TagAnnotationWrapper ''mouse'',
                       MapAnnotationWrapper (Some ''Biosample info'') [(''species'', ''rat'')]]
             [''mouse''])) \<subseteq>
   set (get_linked_tag_annotations
          \<lparr>linked = [TagAnnotationWrapper ''mouse'', TagAnnotationWrapper ''wildtype'',
                    MapAnnotationWrapper (Some ''Biosample info'')
                      [(''species'', ''rat''), (''species'', ''mouse'')]],
           server_tags = [''mouse'', ''wildtype''],
           requests = [SaveTag ''wildtype'', LinkTag ''wildtype'',
                       Delete2 (Some ''Biosample info''),
                       LinkMap (Some ''Biosample info'')
                         [(''species'', ''rat''), (''species'', ''mouse'')]]\<rparr>)"
proof -
  let ?params = "\<lparr>Process_single_tags = True, What_to_do_with_existing_Annotations = ''Append''\<rparr>"
  let ?h = "[(Some ''01_Biosample'', [(''species'', [''mouse''])]),
             (None, [(''_workspace'', [''mouse'', ''wildtype''])])]"
  let ?conn = "image_with [TagAnnotationWrapper ''mouse'',
                  MapAnnotationWrapper (Some ''Biosample info'') [(''species'', ''rat'')]]
        [''mouse'']"
  let ?conn' = "\<lparr>linked = [TagAnnotationWrapper ''mouse'', TagAnnotationWrapper ''wildtype'',
                    MapAnnotationWrapper (Some ''Biosample info'')
                      [(''species'', ''rat''), (''species'', ''mouse'')]],
         server_tags = [''mouse'', ''wildtype''],
         requests = [SaveTag ''wildtype'', LinkTag ''wildtype'',
                     Delete2 (Some ''Biosample info''),
                     LinkMap (Some ''Biosample info'')
                       [(''species'', ''rat''), (''species'', ''mouse'')]]\<rparr>"
  have ap: "What_to_do_with_existing_Annotations ?params = ''Append''" by simp
  have sd0: "split_data True [''Biosample info''] ?h =
      Inr ([''mouse'', ''wildtype''], [], [(''Biosample info'', [(''species'', [''mouse''])])])"
    by code_simp
  then have sd: "split_data (Process_single_tags ?params) [''Biosample info''] ?h =
      Inr ([''mouse'', ''wildtype''], [], [(''Biosample info'', [(''species'', [''mouse''])])])"
    by simp
  have run: "annotateObject always_done [''Biosample info''] ?params ?conn ?h = Inr (?conn', 1, 1)"
    by code_simp
  note t = append_monotonic [OF ap sd, of always_done ?conn ?conn' 1 1]
  note c = t [THEN conjunct1, THEN mp, OF run, THEN conjunct1]
  show ?thesis
    by (intro conjI) (rule ap sd0 run c)+
qed


end
